theory Spec2Isabelle
  imports Complex_Main
begin

section \<open>Data model and numeric conventions\<close>

text \<open>
  Embedding of \<^verbatim>\<open>scripts/generate_edging_script.py\<close>.

  Python \<^verbatim>\<open>int\<close> values are HOL integers. Python \<^verbatim>\<open>float\<close> values are idealised as
  real numbers: every float operation of the script (\<^verbatim>\<open>/\<close>, \<^verbatim>\<open>*\<close>, \<^verbatim>\<open>+\<close>, \<^verbatim>\<open>math.sin\<close>,
  \<^verbatim>\<open>math.cos\<close>) is taken without rounding error. The conversion \<^verbatim>\<open>int(x)\<close> of a float
  truncates towards zero. A float division by zero raises \<^verbatim>\<open>ZeroDivisionError\<close>, and
  reading the last element of an empty list raises \<^verbatim>\<open>IndexError\<close>; both are values of
  the model.
\<close>

datatype error = ZeroDivisionError | IndexError

record action =
  at_ms :: int
  pos :: int

definition py_int :: "real \<Rightarrow> int" where
  "py_int x = (if 0 \<le> x then \<lfloor>x\<rfloor> else \<lceil>x\<rceil>)"

definition DURATION_MS :: int where
  "DURATION_MS = 30 * 60 * 1000"

definition SPEED_VARIATION_INTERVAL :: int where
  "SPEED_VARIATION_INTERVAL = 60 * 1000"

definition UP_SPEED_MULTIPLIER :: real where
  "UP_SPEED_MULTIPLIER = 150 / 100"

subsection \<open>The random source\<close>

text \<open>
  The module-level generator of \<^verbatim>\<open>random\<close> is an explicit stream of raw draws,
  \<open>rnd :: nat \<Rightarrow> nat\<close>, read at an index that every call advances by one. Each library
  call maps its raw draw into its own range, so every stream yields in-range results and
  every in-range result is yielded by some stream.
\<close>

type_synonym rnd = "nat \<Rightarrow> nat"

definition randint :: "int \<Rightarrow> int \<Rightarrow> nat \<Rightarrow> int" where
  "randint a b r = a + int (r mod nat (b - a + 1))"

definition random_unit :: "nat \<Rightarrow> real" where
  "random_unit r = real (r mod 2 ^ 53) / 2 ^ 53"

definition uniform :: "real \<Rightarrow> real \<Rightarrow> nat \<Rightarrow> real" where
  "uniform a b r = a + (b - a) * random_unit r"

definition choice :: "'a list \<Rightarrow> nat \<Rightarrow> 'a" where
  "choice xs r = xs ! (r mod length xs)"

section \<open>Duration model\<close>

definition calculate_duration :: "int \<Rightarrow> bool \<Rightarrow> real \<Rightarrow> error + int" where
  "calculate_duration distance going_up speed_multiplier =
     (if speed_multiplier = 0 then Inl ZeroDivisionError
      else
        let base_ms_per_unit = 150 :: real;
            duration = real_of_int distance * base_ms_per_unit / speed_multiplier;
            duration = (if going_up then duration / UP_SPEED_MULTIPLIER else duration)
        in Inr (py_int duration))"

section \<open>Segment generators\<close>

definition clamp_pos :: "int \<Rightarrow> int" where
  "clamp_pos p = max 0 (min 100 p)"

text \<open>
  One pass of the loop body of \<^verbatim>\<open>generate_wave_motion\<close>, for loop index \<open>i\<close>. The call
  \<^verbatim>\<open>random.randint(5, 10)\<close> stands inside the loop, before the conditional, so pass \<open>i\<close>
  reads the draw at index \<open>k + i\<close>, where \<open>k\<close> is the index of the first pass.
\<close>

definition wave_sample ::
  "int \<Rightarrow> int \<Rightarrow> int \<Rightarrow> int \<Rightarrow> nat \<Rightarrow> rnd \<Rightarrow> nat \<Rightarrow> nat \<Rightarrow> action" where
  "wave_sample start_pos end_pos start_time base_duration num_points rnd k i =
     (let progress = real i / real num_points;
          wave_amplitude = randint 5 10 (rnd (k + i));
          wave_offset = (if i \<noteq> 0 \<and> i \<noteq> num_points
                         then real_of_int wave_amplitude * sin (progress * pi * 2) else 0);
          p = real_of_int start_pos + real_of_int (end_pos - start_pos) * progress + wave_offset;
          p = clamp_pos (py_int p);
          time = start_time + py_int (real_of_int base_duration * progress)
      in \<lparr>at_ms = time, pos = p\<rparr>)"

text \<open>
  The generators return the samples, the end time and the index of the next unread draw.
\<close>

definition generate_wave_motion ::
  "int \<Rightarrow> int \<Rightarrow> int \<Rightarrow> real \<Rightarrow> rnd \<Rightarrow> nat \<Rightarrow> error + (action list \<times> int \<times> nat)" where
  "generate_wave_motion start_pos end_pos start_time speed_mult rnd k =
     (let going_up = end_pos > start_pos;
          distance = \<bar>end_pos - start_pos\<bar>;
          num_points = nat (randint 5 7 (rnd k))
      in case calculate_duration distance going_up speed_mult of
           Inl e \<Rightarrow> Inl e
         | Inr base_duration \<Rightarrow>
             Inr (map (wave_sample start_pos end_pos start_time base_duration num_points rnd (k + 1))
                      [0 ..< num_points + 1],
                  start_time + base_duration,
                  k + 1 + (num_points + 1)))"

definition gradual_sample :: "int \<Rightarrow> int \<Rightarrow> int \<Rightarrow> int \<Rightarrow> nat \<Rightarrow> nat \<Rightarrow> action" where
  "gradual_sample start_pos end_pos start_time base_duration num_points i =
     (let progress = real i / real num_points;
          eased_progress = (cos ((1 - progress) * pi) + 1) / 2;
          p = real_of_int start_pos + real_of_int (end_pos - start_pos) * eased_progress;
          p = clamp_pos (py_int p);
          time = start_time + py_int (real_of_int base_duration * progress)
      in \<lparr>at_ms = time, pos = p\<rparr>)"

definition generate_gradual_motion ::
  "int \<Rightarrow> int \<Rightarrow> int \<Rightarrow> real \<Rightarrow> rnd \<Rightarrow> nat \<Rightarrow> error + (action list \<times> int \<times> nat)" where
  "generate_gradual_motion start_pos end_pos start_time speed_mult rnd k =
     (let going_up = end_pos > start_pos;
          distance = \<bar>end_pos - start_pos\<bar>;
          num_points = nat (randint 8 10 (rnd k))
      in case calculate_duration distance going_up speed_mult of
           Inl e \<Rightarrow> Inl e
         | Inr base_duration \<Rightarrow>
             Inr (map (gradual_sample start_pos end_pos start_time base_duration num_points)
                      [0 ..< num_points + 1],
                  start_time + base_duration,
                  k + 1))"

text \<open>
  The loop of \<^verbatim>\<open>generate_plateau_motion\<close> carries the sample list, \<^verbatim>\<open>current_pos\<close> and
  \<^verbatim>\<open>current_time\<close>; \<open>plateau_step\<close> is its body for loop index \<open>i\<close>.
\<close>

definition plateau_step ::
  "int \<Rightarrow> bool \<Rightarrow> real \<Rightarrow> int \<Rightarrow> nat \<Rightarrow> action list \<times> int \<times> int \<Rightarrow> nat
     \<Rightarrow> action list \<times> int \<times> int" where
  "plateau_step start_pos going_up segment_distance base_duration num_segments st i =
     (case st of (acts, current_pos, current_time) \<Rightarrow>
        let target_pos = py_int (real_of_int start_pos
                                  + segment_distance * (real i + 1) * (if going_up then 1 else - 1));
            segment_duration = base_duration div (int num_segments * 2);
            acts = acts @ [\<lparr>at_ms = current_time, pos = current_pos\<rparr>];
            current_time = current_time + segment_duration;
            acts = acts @ [\<lparr>at_ms = current_time, pos = target_pos\<rparr>];
            current_time = current_time + segment_duration
        in (acts, target_pos, current_time))"

definition generate_plateau_motion ::
  "int \<Rightarrow> int \<Rightarrow> int \<Rightarrow> real \<Rightarrow> rnd \<Rightarrow> nat \<Rightarrow> error + (action list \<times> int \<times> nat)" where
  "generate_plateau_motion start_pos end_pos start_time speed_mult rnd k =
     (let going_up = end_pos > start_pos;
          distance = \<bar>end_pos - start_pos\<bar>
      in case calculate_duration distance going_up speed_mult of
           Inl e \<Rightarrow> Inl e
         | Inr base_duration \<Rightarrow>
             let num_segments = 3 :: nat;
                 segment_distance = real_of_int distance / real num_segments
             in case foldl (plateau_step start_pos going_up segment_distance base_duration num_segments)
                           ([], start_pos, start_time) [0 ..< num_segments] of
                  (acts, current_pos, current_time) \<Rightarrow>
                    Inr (acts @ [\<lparr>at_ms = current_time, pos = end_pos\<rparr>], current_time, k))"

definition add_pause :: "int \<Rightarrow> rnd \<Rightarrow> nat \<Rightarrow> int" where
  "add_pause start_time rnd k = start_time + randint 0 3000 (rnd k)"

definition stroke_sample :: "int \<Rightarrow> int \<Rightarrow> int \<Rightarrow> int \<Rightarrow> nat \<Rightarrow> action" where
  "stroke_sample p_from p_to t0 leg_duration i =
     (let progress = real i / 7;
          p = py_int (real_of_int p_from + real_of_int (p_to - p_from) * progress);
          time = t0 + py_int (real_of_int leg_duration * progress)
      in \<lparr>at_ms = time, pos = p\<rparr>)"

text \<open>
  \<^verbatim>\<open>generate_full_stroke\<close> returns the samples, the end time, the final position and the
  next draw index. Its \<^verbatim>\<open>speed_mult\<close> argument is not read by the body.
\<close>

definition generate_full_stroke ::
  "int \<Rightarrow> int \<Rightarrow> real \<Rightarrow> rnd \<Rightarrow> nat \<Rightarrow> action list \<times> int \<times> int \<times> nat" where
  "generate_full_stroke start_pos start_time speed_mult rnd k =
     (let positions = (if start_pos < 50 then [start_pos, 100, 0] else [start_pos, 0, 100]);
          total_duration = randint 10000 12000 (rnd k);
          going_up_first = positions ! 1 > positions ! 0;
          first_duration = py_int ((real_of_int total_duration / 2)
                                     / (if going_up_first then UP_SPEED_MULTIPLIER else 1));
          acts = map (stroke_sample (positions ! 0) (positions ! 1) start_time first_duration)
                     [0 ..< 8];
          going_up_second = positions ! 2 > positions ! 1;
          second_duration = py_int ((real_of_int total_duration / 2)
                                      / (if going_up_second then UP_SPEED_MULTIPLIER else 1));
          acts = acts @ map (stroke_sample (positions ! 1) (positions ! 2)
                               (start_time + first_duration) second_duration) [1 ..< 8]
      in (acts, start_time + first_duration + second_duration, positions ! 2, k + 1))"

section \<open>Timeline finalizer\<close>

text \<open>
  The deduplication loop carries \<^verbatim>\<open>unique_actions\<close> and \<^verbatim>\<open>last_time\<close>. The sort is
  Python's stable \<^verbatim>\<open>sorted\<close> with key \<^verbatim>\<open>at\<close>; \<open>sort_key\<close> is a stable insertion sort.
\<close>

fun dedupe_loop :: "action list \<Rightarrow> action list \<Rightarrow> int \<Rightarrow> action list" where
  "dedupe_loop [] unique_actions last_time = unique_actions"
| "dedupe_loop (a # as) unique_actions last_time =
     (if at_ms a \<noteq> last_time then dedupe_loop as (unique_actions @ [a]) (at_ms a)
      else dedupe_loop as unique_actions last_time)"

definition finalize :: "action list \<Rightarrow> action list" where
  "finalize acts = dedupe_loop (sort_key at_ms acts) [] (- 1)"

definition close_timeline :: "action list \<Rightarrow> error + action list" where
  "close_timeline acts =
     (if acts = [] then Inl IndexError
      else if at_ms (last acts) < DURATION_MS
           then Inr (acts @ [\<lparr>at_ms = DURATION_MS, pos = 50\<rparr>])
           else Inr acts)"

section \<open>Timeline scheduler\<close>

datatype motion = Wave | Gradual | Plateau

record gen_state =
  actions :: "action list"
  current_time :: int
  current_pos :: int
  full_stroke_index :: nat
  next_speed_change :: int
  speed_multiplier :: real
  in_speed_variation :: bool
  rng :: nat

definition update_speed :: "rnd \<Rightarrow> gen_state \<Rightarrow> gen_state" where
  "update_speed rnd s =
     (if current_time s \<ge> next_speed_change s then
        (if in_speed_variation s
         then s\<lparr>speed_multiplier := 1, in_speed_variation := False,
                next_speed_change := next_speed_change s + SPEED_VARIATION_INTERVAL\<rparr>
         else s\<lparr>speed_multiplier := 1 + uniform (10 / 100) (30 / 100) (rnd (rng s)),
                in_speed_variation := True,
                next_speed_change := next_speed_change s + SPEED_VARIATION_INTERVAL,
                rng := rng s + 1\<rparr>)
      else s)"

text \<open>
  \<^verbatim>\<open>random.random() < 0.15 and not in_speed_variation\<close>: the draw is read first, whatever
  the flag.
\<close>

definition maybe_pause :: "rnd \<Rightarrow> gen_state \<Rightarrow> gen_state" where
  "maybe_pause rnd s =
     (let r = random_unit (rnd (rng s));
          s = s\<lparr>rng := rng s + 1\<rparr>
      in if r < 15 / 100 \<and> \<not> in_speed_variation s then
           (let pause_time = add_pause (current_time s) rnd (rng s);
                s = s\<lparr>rng := rng s + 1\<rparr>
            in if pause_time > current_time s
               then s\<lparr>actions := actions s @ [\<lparr>at_ms = pause_time, pos = current_pos s\<rparr>],
                      current_time := pause_time\<rparr>
               else s)
         else s)"

definition choose_target :: "rnd \<Rightarrow> nat \<Rightarrow> int \<Rightarrow> int" where
  "choose_target rnd k cur =
     (if random_unit (rnd k) < 15 / 100 then choice [15, 20, 85, 90] (rnd (k + 1))
      else if cur < 35 then randint 45 85 (rnd (k + 1))
      else if cur > 75 then randint 25 65 (rnd (k + 1))
      else randint 25 85 (rnd (k + 1)))"

definition generate_motion ::
  "motion \<Rightarrow> int \<Rightarrow> int \<Rightarrow> int \<Rightarrow> real \<Rightarrow> rnd \<Rightarrow> nat \<Rightarrow> error + (action list \<times> int \<times> nat)" where
  "generate_motion motion_type start_pos end_pos start_time speed_mult rnd k =
     (if motion_type = Wave then generate_wave_motion start_pos end_pos start_time speed_mult rnd k
      else if motion_type = Gradual
           then generate_gradual_motion start_pos end_pos start_time speed_mult rnd k
           else generate_plateau_motion start_pos end_pos start_time speed_mult rnd k)"

text \<open>
  One pass of the \<^verbatim>\<open>while\<close> body. The result is an error, or the new state with a flag
  that is true when the pass left the loop through \<^verbatim>\<open>break\<close>; \<^verbatim>\<open>continue\<close> after a
  full stroke is a pass that ends early with the flag false.
\<close>

definition loop_iteration :: "rnd \<Rightarrow> int list \<Rightarrow> gen_state \<Rightarrow> error + (bool \<times> gen_state)" where
  "loop_iteration rnd full_stroke_times s0 =
     (let s = update_speed rnd s0
      in if full_stroke_index s < length full_stroke_times
            \<and> current_time s \<ge> full_stroke_times ! full_stroke_index s
         then
           (case generate_full_stroke (current_pos s) (current_time s) (speed_multiplier s)
                   rnd (rng s) of
              (stroke_actions, t, p, k) \<Rightarrow>
                Inr (False, s\<lparr>actions := actions s @ stroke_actions, current_time := t,
                              current_pos := p,
                              full_stroke_index := full_stroke_index s + 1, rng := k\<rparr>))
         else
           (let s = maybe_pause rnd s;
                motion_type = choice [Wave, Gradual, Plateau, Gradual, Wave] (rnd (rng s));
                target_pos = choose_target rnd (rng s + 1) (current_pos s)
            in case generate_motion motion_type (current_pos s) target_pos (current_time s)
                      (speed_multiplier s) rnd (rng s + 3) of
                 Inl e \<Rightarrow> Inl e
               | Inr (new_actions, t, k) \<Rightarrow>
                   Inr (t > DURATION_MS + 60000,
                        s\<lparr>actions := actions s @ new_actions, current_time := t,
                          current_pos := target_pos, rng := k\<rparr>)))"

partial_function (option) generate_loop ::
  "rnd \<Rightarrow> int list \<Rightarrow> gen_state \<Rightarrow> (error + gen_state) option" where
  "generate_loop rnd full_stroke_times s =
     (if current_time s < DURATION_MS then
        (case loop_iteration rnd full_stroke_times s of
           Inl e \<Rightarrow> Some (Inl e)
         | Inr (stop, s') \<Rightarrow>
             if stop then Some (Inr s') else generate_loop rnd full_stroke_times s')
      else Some (Inr s))"

definition initial_state :: gen_state where
  "initial_state =
     \<lparr>actions = [\<lparr>at_ms = 0, pos = 50\<rparr>], current_time = 0, current_pos = 50,
      full_stroke_index = 0, next_speed_change = SPEED_VARIATION_INTERVAL,
      speed_multiplier = 1, in_speed_variation = False, rng = 5\<rparr>"

definition draw_full_stroke_times :: "rnd \<Rightarrow> int list" where
  "draw_full_stroke_times rnd =
     sort (map (\<lambda>i. randint 60000 (DURATION_MS - 60000) (rnd i)) [0 ..< 5])"

text \<open>
  \<open>accumulated_actions\<close> is the body of \<^verbatim>\<open>generate_edging_script\<close> up to and including
  the closing sample, the list handed to the sort; \<open>generate_edging_script\<close> sorts and
  deduplicates it. \<open>None\<close> is a run that never leaves the \<^verbatim>\<open>while\<close> loop.
\<close>

definition accumulated_actions :: "rnd \<Rightarrow> (error + action list) option" where
  "accumulated_actions rnd =
     (case generate_loop rnd (draw_full_stroke_times rnd) initial_state of
        None \<Rightarrow> None
      | Some (Inl e) \<Rightarrow> Some (Inl e)
      | Some (Inr s) \<Rightarrow> Some (close_timeline (actions s)))"

definition generate_edging_script :: "rnd \<Rightarrow> (error + action list) option" where
  "generate_edging_script rnd =
     (case accumulated_actions rnd of
        None \<Rightarrow> None
      | Some (Inl e) \<Rightarrow> Some (Inl e)
      | Some (Inr acts) \<Rightarrow> Some (Inr (finalize acts)))"

text \<open>
  The invariant of the scheduler loop: the accumulated list starts with the sample at
  time 0, is non-decreasing by timestamp, ends no later than \<^verbatim>\<open>current_time\<close>, and the
  speed multiplier is positive.
\<close>

definition sched_inv :: "gen_state \<Rightarrow> bool" where
  "sched_inv s =
     (actions s \<noteq> [] \<and> at_ms (hd (actions s)) = 0 \<and> sorted (map at_ms (actions s))
      \<and> at_ms (last (actions s)) \<le> current_time s \<and> 0 < speed_multiplier s)"

section \<open>Properties of sample runs\<close>

text \<open>
  The samples a generator call has emitted; a call that raised has emitted none.
\<close>

definition samples_of :: "error + (action list \<times> int \<times> nat) \<Rightarrow> action list" where
  "samples_of r = (case r of Inl e \<Rightarrow> [] | Inr (acts, t, k) \<Rightarrow> acts)"

definition stroke_samples :: "action list \<times> int \<times> int \<times> nat \<Rightarrow> action list" where
  "stroke_samples r = (case r of (acts, t, p, k) \<Rightarrow> acts)"

definition stroke_end_time :: "action list \<times> int \<times> int \<times> nat \<Rightarrow> int" where
  "stroke_end_time r = (case r of (acts, t, p, k) \<Rightarrow> t)"


text \<open>
  A sample run is well formed from \<open>start_time\<close> to \<open>end_time\<close>: it is not empty, its
  first timestamp is \<open>start_time\<close>, its last timestamp is \<open>end_time\<close>, and its timestamps
  are non-decreasing.
\<close>

definition segment_ok :: "int \<Rightarrow> action list \<Rightarrow> int \<Rightarrow> bool" where
  "segment_ok start_time acts end_time =
     (acts \<noteq> [] \<and> at_ms (hd acts) = start_time \<and> at_ms (last acts) = end_time
      \<and> sorted (map at_ms acts))"

definition returns_segment :: "int \<Rightarrow> error + (action list \<times> int \<times> nat) \<Rightarrow> bool" where
  "returns_segment start_time r =
     (case r of Inl e \<Rightarrow> False | Inr (acts, t, k) \<Rightarrow> segment_ok start_time acts t)"

text \<open>
  A stalled state: time 0, position 50, normal speed, the next speed change still ahead.
\<close>

definition stalled :: "gen_state \<Rightarrow> bool" where
  "stalled s =
     (current_time s = 0 \<and> current_pos s = 50 \<and> speed_multiplier s = 1
      \<and> \<not> in_speed_variation s \<and> 0 < next_speed_change s)"

section \<open>Draw streams of the examples\<close>

text \<open>
  \<open>overshoot_draws\<close>: six wave points, every amplitude 5. \<open>two_amplitudes\<close>: six wave
  points, amplitude 10 for the third sample of a wave call at index 0 and 5 for the others.
\<close>

definition overshoot_draws :: rnd where
  "overshoot_draws i = (if i = 0 then 1 else 0)"

definition two_amplitudes :: rnd where
  "two_amplitudes i = (if i = 0 then 1 else if i = 3 then 5 else 0)"

text \<open>
  \<open>steady_draws\<close>: a stream of period 8 whose every value selects no pause, the plateau
  generator and no tease target, and whose target draws alternate between a low and a
  high position. \<open>stuck_draws\<close>: a constant stream whose value selects no pause, the
  plateau generator, no tease target and, from the middle zone, the target 50.
\<close>

definition steady_draws :: rnd where
  "steady_draws i = (if i mod 8 < 4 then 32637586499553984512 else 78844518676375273472)"

definition stuck_draws :: rnd where
  "stuck_draws i = 526921156402348032"

section \<open>Arithmetic of the conversions and the random source\<close>

lemma py_int_nonneg: "0 \<le> x \<Longrightarrow> py_int x = \<lfloor>x\<rfloor>"
  by (simp add: py_int_def)

lemma py_int_of_int [simp]: "py_int (real_of_int n) = n"
  by (simp add: py_int_def)

lemma py_int_mono: "x \<le> y \<Longrightarrow> py_int x \<le> py_int y"
proof -
  assume xy: "x \<le> y"
  have "\<lceil>x\<rceil> \<le> \<lfloor>y\<rfloor>" if "x < 0" "0 \<le> y"
  proof -
    have "\<lceil>x\<rceil> \<le> 0" using that by (simp add: ceiling_le_iff)
    moreover have "0 \<le> \<lfloor>y\<rfloor>" using that by simp
    ultimately show ?thesis by linarith
  qed
  then show ?thesis
    using xy by (auto simp add: py_int_def floor_mono ceiling_mono)
qed

lemma randint_range: "a \<le> b \<Longrightarrow> a \<le> randint a b r \<and> randint a b r \<le> b"
proof -
  assume ab: "a \<le> b"
  then have "r mod nat (b - a + 1) < nat (b - a + 1)" by simp
  then have "int (r mod nat (b - a + 1)) < b - a + 1" using ab by linarith
  then show ?thesis by (simp add: randint_def)
qed

section \<open>Duration model: the directional asymmetry\<close>


lemma calculate_duration_pos:
  assumes "0 < m" "0 \<le> d"
  shows "calculate_duration d up m = Inr \<lfloor>(if up then real_of_int d * 150 / m / (3 / 2) else real_of_int d * 150 / m)\<rfloor>"
  using assms by (simp add: calculate_duration_def UP_SPEED_MULTIPLIER_def py_int_def Let_def)




section \<open>Full-range cycle: elapsed time\<close>

text \<open>
  One leg of the cycle always goes up and the other down, so the two legs take a third
  and a half of the drawn total.
\<close>

lemma full_stroke_end_time:
  "fst (snd (generate_full_stroke start_pos start_time speed_mult rnd k))
     = start_time + randint 10000 12000 (rnd k) div 3 + randint 10000 12000 (rnd k) div 2"
proof -
  let ?T = "randint 10000 12000 (rnd k)"
  have T: "0 \<le> ?T" using randint_range [of 10000 12000 "rnd k"] by simp
  have a: "py_int (real_of_int ?T / 2 / (150 / 100)) = ?T div 3"
  proof -
    have "real_of_int ?T / 2 / (150 / 100) = real_of_int ?T / 3" by simp
    then show ?thesis
      using T floor_divide_of_int_eq [of ?T 3, where ?'a = real] by (simp add: py_int_def)
  qed
  have b: "py_int (real_of_int ?T / 2) = ?T div 2"
  proof -
    show ?thesis
      using T floor_divide_of_int_eq [of ?T 2, where ?'a = real] by (simp add: py_int_def)
  qed
  show ?thesis
    using a b by (simp add: generate_full_stroke_def Let_def UP_SPEED_MULTIPLIER_def)
qed

text \<open>
  C1. The claim puts the elapsed time of a full-range cycle in the band
  \<open>[10000, 12000]\<close> ms. From position 50 at time 0, with the draw that selects a total
  of 10000 ms, the returned end time is 8333 ms.
\<close>

theorem full_stroke_elapsed_short:
  "fst (snd (generate_full_stroke 50 0 1 (\<lambda>i. 0) 0)) - 0 = 8333"
  by (simp add: full_stroke_end_time randint_def)

text \<open>
  For every input the elapsed time lies in \<open>[8333, 10000]\<close> ms.
\<close>

lemma full_stroke_elapsed_bounds:
  "8333 \<le> fst (snd (generate_full_stroke start_pos start_time speed_mult rnd k)) - start_time
   \<and> fst (snd (generate_full_stroke start_pos start_time speed_mult rnd k)) - start_time \<le> 10000"
  using randint_range [of 10000 12000 "rnd k"] unfolding full_stroke_end_time by linarith

section \<open>Finalizer: sorting and deduplication\<close>

lemma dedupe_loop_acc:
  "dedupe_loop xs unique_actions last_time = unique_actions @ dedupe_loop xs [] last_time"
proof (induction xs arbitrary: unique_actions last_time)
  case Nil
  show ?case by simp
next
  case (Cons a xs)
  show ?case
    using Cons.IH [of "unique_actions @ [a]" "at_ms a"] Cons.IH [of "[a]" "at_ms a"]
      Cons.IH [of unique_actions last_time]
    by simp
qed

lemma dedupe_loop_Cons:
  "dedupe_loop (a # xs) [] l =
     (if at_ms a \<noteq> l then a # dedupe_loop xs [] (at_ms a) else dedupe_loop xs [] l)"
  using dedupe_loop_acc [of xs "[a]" "at_ms a"] by simp

lemma dedupe_loop_subset: "set (dedupe_loop xs [] l) \<subseteq> set xs"
proof (induction xs arbitrary: l)
  case Nil
  show ?case by simp
next
  case (Cons a xs)
  show ?case using Cons.IH [of "at_ms a"] Cons.IH [of l]
    by (auto simp add: dedupe_loop_Cons simp del: dedupe_loop.simps)
qed

lemma dedupe_loop_above:
  "sorted (map at_ms xs) \<Longrightarrow> \<forall>x \<in> set xs. l \<le> at_ms x \<Longrightarrow>
     (\<forall>b \<in> set (dedupe_loop xs [] l). l < at_ms b)
     \<and> sorted_wrt (<) (map at_ms (dedupe_loop xs [] l))"
proof (induction xs arbitrary: l)
  case Nil
  show ?case by simp
next
  case (Cons a xs)
  have srt: "sorted (map at_ms xs)" and ge: "\<forall>x \<in> set xs. at_ms a \<le> at_ms x"
    using Cons.prems(1) by auto
  show ?case
  proof (cases "at_ms a = l")
    case True
    then show ?thesis
      using Cons.IH [OF srt, of l] ge by (simp add: dedupe_loop_Cons del: dedupe_loop.simps)
  next
    case False
    then have "l < at_ms a" using Cons.prems(2) by force
    then show ?thesis
      using Cons.IH [OF srt ge] False
      by (auto simp add: dedupe_loop_Cons simp del: dedupe_loop.simps)
  qed
qed

lemma dedupe_loop_strict:
  assumes "sorted (map at_ms xs)"
  shows "sorted_wrt (<) (map at_ms (dedupe_loop xs [] l))"
proof (cases xs)
  case Nil
  then show ?thesis by simp
next
  case (Cons a ys)
  have srt: "sorted (map at_ms ys)" and ge: "\<forall>x \<in> set ys. at_ms a \<le> at_ms x"
    using assms Cons by auto
  show ?thesis
    using dedupe_loop_above [OF srt ge] Cons
    by (auto simp add: dedupe_loop_Cons simp del: dedupe_loop.simps)
qed

lemma dedupe_loop_hd:
  "dedupe_loop xs [] l \<noteq> [] \<Longrightarrow> at_ms (hd (dedupe_loop xs [] l)) \<noteq> l"
proof (induction xs)
  case Nil
  then show ?case by simp
next
  case (Cons a xs)
  then show ?case by (auto simp add: dedupe_loop_Cons simp del: dedupe_loop.simps split: if_splits)
qed

lemma dedupe_loop_id:
  "sorted_wrt (<) (map at_ms xs) \<Longrightarrow> (xs \<noteq> [] \<Longrightarrow> at_ms (hd xs) \<noteq> l) \<Longrightarrow>
     dedupe_loop xs [] l = xs"
proof (induction xs arbitrary: l)
  case Nil
  show ?case by simp
next
  case (Cons a xs)
  have "dedupe_loop xs [] (at_ms a) = xs"
  proof (rule Cons.IH)
    show "sorted_wrt (<) (map at_ms xs)" using Cons.prems(1) by simp
    show "at_ms (hd xs) \<noteq> at_ms a" if "xs \<noteq> []"
    proof -
      have "hd xs \<in> set xs" using that by simp
      then show ?thesis using Cons.prems(1) by auto
    qed
  qed
  then show ?case using Cons.prems(2) by (simp add: dedupe_loop_Cons del: dedupe_loop.simps)
qed

lemma finalize_strict: "sorted_wrt (<) (map at_ms (finalize acts))"
  unfolding finalize_def by (rule dedupe_loop_strict) simp

lemma strict_imp_sorted: "sorted_wrt (<) (xs :: int list) \<Longrightarrow> sorted xs"
  by (induction xs) auto

lemma finalize_sorted_id:
  assumes "sorted_wrt (<) (map at_ms xs)" "xs \<noteq> [] \<Longrightarrow> at_ms (hd xs) \<noteq> - 1"
  shows "finalize xs = xs"
proof -
  have "sort_key at_ms xs = xs"
    using assms(1) by (intro sort_key_id_if_sorted strict_imp_sorted)
  then show ?thesis using assms by (simp add: finalize_def dedupe_loop_id)
qed

text \<open>
  C7. The sort-and-deduplicate step is idempotent: applied to a sequence it has produced,
  it returns that sequence unchanged. This holds for every input list.
\<close>

theorem finalize_idempotent: "finalize (finalize acts) = finalize acts"
proof (rule finalize_sorted_id)
  show "sorted_wrt (<) (map at_ms (finalize acts))" by (rule finalize_strict)
  show "at_ms (hd (finalize acts)) \<noteq> - 1" if "finalize acts \<noteq> []"
    using that unfolding finalize_def by (rule dedupe_loop_hd)
qed

lemma finalize_hd_zero:
  assumes "\<forall>a \<in> set acts. 0 \<le> at_ms a" "\<exists>a \<in> set acts. at_ms a = 0"
  shows "finalize acts \<noteq> [] \<and> at_ms (hd (finalize acts)) = 0"
proof -
  let ?ys = "sort_key at_ms acts"
  have ne: "?ys \<noteq> []" using assms(2) by (cases acts) auto
  then obtain y ys where ys: "?ys = y # ys" by (cases ?ys) auto
  have srt: "sorted (map at_ms (y # ys))" using ys [symmetric] by simp
  have "set (y # ys) = set acts" using ys [symmetric] by simp
  then have y0: "0 \<le> at_ms y" and ex: "\<exists>a \<in> set (y # ys). at_ms a = 0"
    using assms by auto
  have "at_ms y \<le> 0" using srt ex by auto
  then have "at_ms y = 0" using y0 by simp
  then show ?thesis
    by (simp add: finalize_def ys dedupe_loop_Cons del: dedupe_loop.simps)
qed

section \<open>Segment generators: timestamps\<close>

lemma py_int_zero [simp]: "py_int 0 = 0"
  by (simp add: py_int_def)

lemma py_int_numeral [simp]: "py_int (numeral n) = numeral n"
  by (simp add: py_int_def)

lemma num_points_wave: "5 \<le> nat (randint 5 7 r) \<and> nat (randint 5 7 r) \<le> 7"
  using randint_range [of 5 7 r] by linarith

lemma num_points_gradual: "8 \<le> nat (randint 8 10 r) \<and> nat (randint 8 10 r) \<le> 10"
  using randint_range [of 8 10 r] by linarith

lemma sorted_map_upt:
  assumes "\<And>i j. i \<le> j \<Longrightarrow> j < n \<Longrightarrow> f i \<le> (f j :: int)"
  shows "sorted (map f [0 ..< n])"
  using assms by (simp add: sorted_iff_nth_mono)

lemma scaled_time_mono:
  assumes "0 \<le> b" "i \<le> j" "0 < n"
  shows "py_int (real_of_int b * (real i / real n)) \<le> py_int (real_of_int b * (real j / real n))"
proof (rule py_int_mono)
  have "real i / real n \<le> real j / real n"
    using assms by (simp add: divide_right_mono)
  moreover have "0 \<le> real_of_int b" using assms(1) by simp
  ultimately show "real_of_int b * (real i / real n) \<le> real_of_int b * (real j / real n)"
    by (rule mult_left_mono)
qed

lemma timed_run_ok:
  assumes "0 \<le> b" "0 < n"
    and "\<And>i. at_ms (f i) = st + py_int (real_of_int b * (real i / real n))"
  shows "segment_ok st (map f [0 ..< n + 1]) (st + b)"
proof -
  have "at_ms (f i) \<le> at_ms (f j)" if "i \<le> j" for i j
    unfolding assms(3) using scaled_time_mono [OF assms(1) that assms(2)] by linarith
  then have "sorted (map (\<lambda>i. at_ms (f i)) [0 ..< n + 1])"
    by (intro sorted_map_upt)
  then have "sorted (map at_ms (map f [0 ..< n + 1]))" by (simp add: comp_def)
  moreover have "at_ms (hd (map f [0 ..< n + 1])) = st"
    by (simp add: hd_map upt_rec [of 0] assms(3))
  moreover have "at_ms (last (map f [0 ..< n + 1])) = st + b"
    using assms(2) by (simp add: last_map assms(3))
  ultimately show ?thesis by (simp add: segment_ok_def)
qed

lemma calculate_duration_nonneg:
  assumes "0 < m" "0 \<le> d"
  shows "\<exists>b. calculate_duration d up m = Inr b \<and> 0 \<le> b"
  using assms by (simp add: calculate_duration_pos)

lemma wave_segment_ok:
  assumes "0 < m"
  shows "returns_segment st (generate_wave_motion sp ep st m rnd k)"
proof -
  obtain b where b: "calculate_duration \<bar>ep - sp\<bar> (sp < ep) m = Inr b" "0 \<le> b"
    using calculate_duration_nonneg [OF assms, of "\<bar>ep - sp\<bar>"] by auto
  have n: "0 < nat (randint 5 7 (rnd k))" using num_points_wave [of "rnd k"] by linarith
  have "segment_ok st (map (wave_sample sp ep st b (nat (randint 5 7 (rnd k))) rnd (k + 1))
          [0 ..< nat (randint 5 7 (rnd k)) + 1]) (st + b)"
    by (rule timed_run_ok [OF b(2) n]) (simp add: wave_sample_def Let_def)
  then show ?thesis
    by (simp add: returns_segment_def generate_wave_motion_def Let_def b(1))
qed

lemma gradual_segment_ok:
  assumes "0 < m"
  shows "returns_segment st (generate_gradual_motion sp ep st m rnd k)"
proof -
  obtain b where b: "calculate_duration \<bar>ep - sp\<bar> (sp < ep) m = Inr b" "0 \<le> b"
    using calculate_duration_nonneg [OF assms, of "\<bar>ep - sp\<bar>"] by auto
  have n: "0 < nat (randint 8 10 (rnd k))" using num_points_gradual [of "rnd k"] by linarith
  have "segment_ok st (map (gradual_sample sp ep st b (nat (randint 8 10 (rnd k))))
          [0 ..< nat (randint 8 10 (rnd k)) + 1]) (st + b)"
    by (rule timed_run_ok [OF b(2) n]) (simp add: gradual_sample_def Let_def)
  then show ?thesis
    by (simp add: returns_segment_def generate_gradual_motion_def Let_def b(1))
qed

lemma upt_3: "[0 ..< 3] = [0, 1, 2]"
  by (simp add: upt_rec)

lemma plateau_unfolded:
  assumes "calculate_duration \<bar>ep - sp\<bar> (sp < ep) m = Inr b"
  shows "generate_plateau_motion sp ep st m rnd k =
     (let g = (if sp < ep then 1 else - 1) :: real;
          d = real_of_int \<bar>ep - sp\<bar> / 3;
          seg = b div 6;
          t1 = py_int (real_of_int sp + d * 1 * g);
          t2 = py_int (real_of_int sp + d * 2 * g);
          t3 = py_int (real_of_int sp + d * 3 * g)
      in Inr ([\<lparr>at_ms = st, pos = sp\<rparr>, \<lparr>at_ms = st + seg, pos = t1\<rparr>,
               \<lparr>at_ms = st + seg + seg, pos = t1\<rparr>, \<lparr>at_ms = st + seg + seg + seg, pos = t2\<rparr>,
               \<lparr>at_ms = st + seg + seg + seg + seg, pos = t2\<rparr>,
               \<lparr>at_ms = st + seg + seg + seg + seg + seg, pos = t3\<rparr>,
               \<lparr>at_ms = st + seg + seg + seg + seg + seg + seg, pos = ep\<rparr>],
              st + seg + seg + seg + seg + seg + seg, k))"
  by (simp add: generate_plateau_motion_def assms upt_3 plateau_step_def Let_def)

lemma plateau_segment_ok:
  assumes "0 < m"
  shows "returns_segment st (generate_plateau_motion sp ep st m rnd k)"
proof -
  obtain b where b: "calculate_duration \<bar>ep - sp\<bar> (sp < ep) m = Inr b" "0 \<le> b"
    using calculate_duration_nonneg [OF assms, of "\<bar>ep - sp\<bar>"] by auto
  have "0 \<le> b div 6" using b(2) by simp
  then show ?thesis
    by (simp add: returns_segment_def plateau_unfolded [OF b(1)] Let_def segment_ok_def)
qed


lemma sorted_map_upt_from:
  assumes "\<And>i j. i \<le> j \<Longrightarrow> f i \<le> (f j :: int)"
  shows "sorted (map f [a ..< n])"
  using assms by (simp add: sorted_iff_nth_mono)

lemma stroke_time_mono:
  assumes "0 \<le> b" "i \<le> j"
  shows "py_int (real_of_int b * (real i / 7)) \<le> py_int (real_of_int b * (real j / 7))"
  using scaled_time_mono [OF assms, of 7] by simp

lemma stroke_legs_ok:
  assumes "0 \<le> d1" "0 \<le> d2"
  shows "segment_ok st (map (stroke_sample a b st d1) [0 ..< 8]
                        @ map (stroke_sample b c (st + d1) d2) [1 ..< 8]) (st + d1 + d2)"
proof -
  let ?f = "\<lambda>i. at_ms (stroke_sample a b st d1 i)"
  let ?g = "\<lambda>i. at_ms (stroke_sample b c (st + d1) d2 i)"
  have f: "?f i = st + py_int (real_of_int d1 * (real i / 7))" for i
    by (simp add: stroke_sample_def Let_def)
  have g: "?g i = st + d1 + py_int (real_of_int d2 * (real i / 7))" for i
    by (simp add: stroke_sample_def Let_def)
  have s1: "sorted (map ?f [0 ..< 8])"
    by (rule sorted_map_upt_from) (simp only: f add_le_cancel_left stroke_time_mono [OF assms(1)])
  have s2: "sorted (map ?g [1 ..< 8])"
    by (rule sorted_map_upt_from) (simp only: g add_le_cancel_left stroke_time_mono [OF assms(2)])
  have fle: "?f i \<le> st + d1" if "i < 8" for i
  proof -
    have "py_int (real_of_int d1 * (real i / 7)) \<le> py_int (real_of_int d1 * (real 7 / 7))"
      using that by (intro stroke_time_mono [OF assms(1)]) simp
    then show ?thesis unfolding f by simp
  qed
  have gge: "st + d1 \<le> ?g i" for i
  proof -
    have "py_int (real_of_int d2 * (real 0 / 7)) \<le> py_int (real_of_int d2 * (real i / 7))"
      by (intro stroke_time_mono [OF assms(2)]) simp
    then show ?thesis unfolding g by simp
  qed
  have cross: "\<forall>x \<in> set (map ?f [0 ..< 8]). \<forall>y \<in> set (map ?g [1 ..< 8]). x \<le> y"
  proof (intro ballI)
    fix x y
    assume "x \<in> set (map ?f [0 ..< 8])" "y \<in> set (map ?g [1 ..< 8])"
    then obtain i j where "x = ?f i" "i < 8" "y = ?g j" by auto
    then show "x \<le> y" using fle [of i] gge [of j] by linarith
  qed
  have "sorted (map ?f [0 ..< 8] @ map ?g [1 ..< 8])"
    using s1 s2 cross by (simp only: sorted_append)
  then have srt: "sorted (map at_ms (map (stroke_sample a b st d1) [0 ..< 8]
                        @ map (stroke_sample b c (st + d1) d2) [1 ..< 8]))"
    by (simp add: comp_def)
  have hd: "at_ms (hd (map (stroke_sample a b st d1) [0 ..< 8]
                        @ map (stroke_sample b c (st + d1) d2) [1 ..< 8])) = st"
    by (simp add: upt_rec [of 0] f)
  have "[1 ..< 8] = [1 ..< 7] @ [7::nat]" by (simp add: upt_rec)
  then have lst: "at_ms (last (map (stroke_sample a b st d1) [0 ..< 8]
                        @ map (stroke_sample b c (st + d1) d2) [1 ..< 8])) = st + d1 + d2"
    using g [of 7] by simp
  show ?thesis
    unfolding segment_ok_def using srt hd lst by simp
qed

lemma py_int_third: "0 \<le> T \<Longrightarrow> py_int (real_of_int T / 2 / (150 / 100)) = T div 3"
  using floor_divide_of_int_eq [of T 3, where ?'a = real] by (simp add: py_int_def)

lemma py_int_half: "0 \<le> T \<Longrightarrow> py_int (real_of_int T / 2) = T div 2"
  using floor_divide_of_int_eq [of T 2, where ?'a = real] by (simp add: py_int_def)

lemma full_stroke_unfolded:
  "generate_full_stroke sp st m rnd k =
     (let T = randint 10000 12000 (rnd k)
      in if sp < 50
         then (map (stroke_sample sp 100 st (T div 3)) [0 ..< 8]
                 @ map (stroke_sample 100 0 (st + T div 3) (T div 2)) [1 ..< 8],
               st + T div 3 + T div 2, 0, k + 1)
         else (map (stroke_sample sp 0 st (T div 2)) [0 ..< 8]
                 @ map (stroke_sample 0 100 (st + T div 2) (T div 3)) [1 ..< 8],
               st + T div 2 + T div 3, 100, k + 1))"
proof -
  have T: "0 \<le> randint 10000 12000 (rnd k)"
    using randint_range [of 10000 12000 "rnd k"] by simp
  show ?thesis
    using py_int_third [OF T] py_int_half [OF T]
    by (simp add: generate_full_stroke_def Let_def UP_SPEED_MULTIPLIER_def)
qed

lemma full_stroke_segment_ok:
  "segment_ok st (stroke_samples (generate_full_stroke sp st m rnd k))
     (stroke_end_time (generate_full_stroke sp st m rnd k))"
proof -
  have T: "0 \<le> randint 10000 12000 (rnd k) div 3" "0 \<le> randint 10000 12000 (rnd k) div 2"
    using randint_range [of 10000 12000 "rnd k"] by linarith+
  show ?thesis
    using stroke_legs_ok [OF T(1) T(2)] stroke_legs_ok [OF T(2) T(1)]
    by (simp add: full_stroke_unfolded Let_def stroke_samples_def stroke_end_time_def)
qed






section \<open>Segment generators: positions\<close>













section \<open>Wave generator: amplitudes and overshoot\<close>

lemma sin_sixth_turn: "sin (real 1 / real 6 * pi * 2) = sqrt 3 / 2"
proof -
  have "real 1 / real 6 * pi * 2 = pi / 3" by simp
  then show ?thesis by (simp only: sin_60)
qed

lemma sin_third_turn: "sin (real 2 / real 6 * pi * 2) = sqrt 3 / 2"
proof -
  have "real 2 / real 6 * pi * 2 = pi - pi / 3" by simp
  then show ?thesis by (simp only: sin_pi_minus sin_60)
qed

lemma sqrt3_bounds: "8 / 5 \<le> sqrt 3 \<and> sqrt 3 < 9 / 5"
proof
  show "8 / 5 \<le> sqrt 3" by (rule real_le_rsqrt) (simp add: power2_eq_square)
  show "sqrt 3 < 9 / 5" by (rule real_less_lsqrt) (simp_all add: power2_eq_square)
qed

lemma py_int_between:
  assumes "real_of_int z \<le> x" "x < real_of_int z + 1" "0 \<le> z"
  shows "py_int x = z"
proof -
  have "0 \<le> x" using assms(1,3) by (meson of_int_0_le_iff order_trans)
  moreover have "\<lfloor>x\<rfloor> = z" using assms(1,2) by (rule floor_unique)
  ultimately show ?thesis by (simp add: py_int_def)
qed

lemma wave_sample_first:
  "pos (wave_sample sp ep st b n rnd k 0) = clamp_pos sp"
  by (simp add: wave_sample_def Let_def)

lemma wave_sample_last:
  "0 < n \<Longrightarrow> pos (wave_sample sp ep st b n rnd k n) = clamp_pos ep"
  by (simp add: wave_sample_def Let_def)

lemma wave_sample_inner:
  "0 < i \<Longrightarrow> i < n \<Longrightarrow> pos (wave_sample sp ep st b n rnd k i) =
     clamp_pos (py_int (real_of_int sp + real_of_int (ep - sp) * (real i / real n)
        + real_of_int (randint 5 10 (rnd (k + i))) * sin (real i / real n * pi * 2)))"
  by (simp add: wave_sample_def Let_def)

text \<open>
  C8 (as amended). A call of the wave generator with a non-zero speed multiplier reads
  one draw for the number of points \<open>n\<close> and then one amplitude draw for each of its
  \<open>n + 1\<close> samples: sample \<open>i\<close> strictly between the first and the last is the clamped,
  truncated sum of the linear interpolation and its own amplitude, the draw at index
  \<open>k + 1 + i\<close>, times the sine. The offset of the first and of the last sample is zero,
  so their positions are the clamped start and end positions.
\<close>

theorem wave_amplitude_per_sample:
  assumes "m \<noteq> 0"
  shows "let n = nat (randint 5 7 (rnd k)) in
     \<exists>acts t. generate_wave_motion sp ep st m rnd k = Inr (acts, t, k + 1 + (n + 1))
       \<and> length acts = n + 1
       \<and> pos (acts ! 0) = clamp_pos sp
       \<and> pos (acts ! n) = clamp_pos ep
       \<and> (\<forall>i. 0 < i \<and> i < n \<longrightarrow>
            pos (acts ! i) =
              clamp_pos (py_int (real_of_int sp + real_of_int (ep - sp) * (real i / real n)
                + real_of_int (randint 5 10 (rnd (k + 1 + i))) * sin (real i / real n * pi * 2))))"
proof -
  define n where "n = nat (randint 5 7 (rnd k))"
  have n: "0 < n" using num_points_wave [of "rnd k"] unfolding n_def by linarith
  obtain b where b: "calculate_duration \<bar>ep - sp\<bar> (sp < ep) m = Inr b"
    using assms by (simp add: calculate_duration_def Let_def)
  define acts where "acts = map (wave_sample sp ep st b n rnd (k + 1)) [0 ..< n + 1]"
  have run: "generate_wave_motion sp ep st m rnd k = Inr (acts, st + b, k + 1 + (n + 1))"
    by (simp add: generate_wave_motion_def Let_def b acts_def n_def)
  have nth: "acts ! i = wave_sample sp ep st b n rnd (k + 1) i" if "i \<le> n" for i
    using that unfolding acts_def by (simp add: nth_map_upt del: upt_Suc)
  have "length acts = n + 1" by (simp add: acts_def)
  moreover have "pos (acts ! 0) = clamp_pos sp" by (simp add: nth wave_sample_first)
  moreover have "pos (acts ! n) = clamp_pos ep" using n by (simp add: nth wave_sample_last)
  moreover have "pos (acts ! i) =
              clamp_pos (py_int (real_of_int sp + real_of_int (ep - sp) * (real i / real n)
                + real_of_int (randint 5 10 (rnd (k + 1 + i))) * sin (real i / real n * pi * 2)))"
    if "0 < i" "i < n" for i
    using that by (simp add: nth wave_sample_inner)
  ultimately show ?thesis
    unfolding Let_def n_def [symmetric] using run by blast
qed

lemma two_amplitudes_run:
  "pos (samples_of (generate_wave_motion 50 50 0 1 two_amplitudes 0) ! 1) = 54
   \<and> pos (samples_of (generate_wave_motion 50 50 0 1 two_amplitudes 0) ! 2) = 58"
proof -
  have n: "nat (randint 5 7 (two_amplitudes 0)) = 6"
    by (simp add: randint_def two_amplitudes_def)
  have a1: "randint 5 10 (two_amplitudes (1 + 1)) = 5"
    and a2: "randint 5 10 (two_amplitudes (1 + 2)) = 10"
    by (simp_all add: randint_def two_amplitudes_def)
  have b: "calculate_duration \<bar>50 - 50\<bar> (50 < (50::int)) 1 = Inr 0"
    by (simp add: calculate_duration_def)
  have acts: "samples_of (generate_wave_motion 50 50 0 1 two_amplitudes 0) =
     map (wave_sample 50 50 0 0 6 two_amplitudes 1) [0 ..< 7]"
    using b by (simp add: samples_of_def generate_wave_motion_def Let_def n)
  have p1: "py_int (50 + 5 * (sqrt 3 / 2)) = 54"
    using sqrt3_bounds by (intro py_int_between) simp_all
  have p2: "py_int (50 + 10 * (sqrt 3 / 2)) = 58"
    using sqrt3_bounds by (intro py_int_between) simp_all
  have "pos (wave_sample 50 50 0 0 6 two_amplitudes 1 1) =
     clamp_pos (py_int (real_of_int 50 + real_of_int (50 - 50) * (real 1 / real 6)
        + real_of_int (randint 5 10 (two_amplitudes (1 + 1))) * sin (real 1 / real 6 * pi * 2)))"
    by (rule wave_sample_inner) simp_all
  then have s1: "pos (wave_sample 50 50 0 0 6 two_amplitudes 1 1) = 54"
    unfolding sin_sixth_turn a1 using p1 by (simp add: clamp_pos_def)
  have "pos (wave_sample 50 50 0 0 6 two_amplitudes 1 2) =
     clamp_pos (py_int (real_of_int 50 + real_of_int (50 - 50) * (real 2 / real 6)
        + real_of_int (randint 5 10 (two_amplitudes (1 + 2))) * sin (real 2 / real 6 * pi * 2)))"
    by (rule wave_sample_inner) simp_all
  then have s2: "pos (wave_sample 50 50 0 0 6 two_amplitudes 1 2) = 58"
    unfolding sin_third_turn a2 using p2 by (simp add: clamp_pos_def)
  have "map (wave_sample 50 50 0 0 6 two_amplitudes 1) [0 ..< 7] ! 1
          = wave_sample 50 50 0 0 6 two_amplitudes 1 (0 + 1)"
    by (rule nth_map_upt) simp
  then have n1: "map (wave_sample 50 50 0 0 6 two_amplitudes 1) [0 ..< 7] ! 1
          = wave_sample 50 50 0 0 6 two_amplitudes 1 1"
    by (simp only: add_0)
  have "map (wave_sample 50 50 0 0 6 two_amplitudes 1) [0 ..< 7] ! 2
          = wave_sample 50 50 0 0 6 two_amplitudes 1 (0 + 2)"
    by (rule nth_map_upt) simp
  then have n2: "map (wave_sample 50 50 0 0 6 two_amplitudes 1) [0 ..< 7] ! 2
          = wave_sample 50 50 0 0 6 two_amplitudes 1 2"
    by (simp only: add_0)
  show ?thesis
    unfolding acts n1 n2 using s1 s2 by (rule conjI)
qed


theorem wave_amplitude_per_sample_witness:
  "(1::real) \<noteq> 0
   \<and> (\<exists>acts t. generate_wave_motion 50 50 0 1 two_amplitudes 0 = Inr (acts, t, 8)
         \<and> length acts = 7 \<and> pos (acts ! 0) = 50 \<and> pos (acts ! 6) = 50)"
proof -
  have n: "nat (randint 5 7 (two_amplitudes 0)) = 6"
    by (simp add: randint_def two_amplitudes_def)
  show ?thesis
    using wave_amplitude_per_sample [of 1 two_amplitudes 0 50 50 0]
    by (auto simp add: Let_def n clamp_pos_def)
qed

text \<open>
  C8 as stated, one amplitude for all samples of a call, fails: from 50 to 50 with six
  points, samples 1 and 2 have the same sine factor and the same interpolated position,
  yet their positions are 54 and 58, from the amplitudes 5 and 10. No single amplitude
  yields both.
\<close>

theorem wave_single_amplitude_counterexample:
  "pos (samples_of (generate_wave_motion 50 50 0 1 two_amplitudes 0) ! 1) = 54
   \<and> pos (samples_of (generate_wave_motion 50 50 0 1 two_amplitudes 0) ! 2) = 58
   \<and> \<not> (\<exists>a. pos (samples_of (generate_wave_motion 50 50 0 1 two_amplitudes 0) ! 1)
               = clamp_pos (py_int (real_of_int 50 + real_of_int (50 - 50) * (real 1 / real 6)
                   + real_of_int a * sin (real 1 / real 6 * pi * 2)))
           \<and> pos (samples_of (generate_wave_motion 50 50 0 1 two_amplitudes 0) ! 2)
               = clamp_pos (py_int (real_of_int 50 + real_of_int (50 - 50) * (real 2 / real 6)
                   + real_of_int a * sin (real 2 / real 6 * pi * 2))))"
proof -
  have "clamp_pos (py_int (real_of_int 50 + real_of_int (50 - 50) * (real 1 / real 6)
                   + real_of_int a * sin (real 1 / real 6 * pi * 2)))
        = clamp_pos (py_int (real_of_int 50 + real_of_int (50 - 50) * (real 2 / real 6)
                   + real_of_int a * sin (real 2 / real 6 * pi * 2)))" for a
    unfolding sin_sixth_turn sin_third_turn by simp
  then show ?thesis
    using two_amplitudes_run by auto
qed

text \<open>
  C10. With start and end position 99, strictly inside \<open>(0, 100)\<close>, and a draw of six
  points and amplitude 5, the second sample of the wave generator is at position 100: the
  unclamped position is 103.
\<close>

theorem wave_reaches_extreme:
  "(0::int) < 99 \<and> (99::int) < 100
   \<and> pos (samples_of (generate_wave_motion 99 99 0 1 overshoot_draws 0) ! 1) = 100
   \<and> py_int (real_of_int 99 + real_of_int (99 - 99) * (real 1 / real 6)
        + real_of_int (randint 5 10 (overshoot_draws (1 + 1))) * sin (real 1 / real 6 * pi * 2))
       = 103"
proof -
  have n: "nat (randint 5 7 (overshoot_draws 0)) = 6"
    by (simp add: randint_def overshoot_draws_def)
  have a1: "randint 5 10 (overshoot_draws (1 + 1)) = 5"
    by (simp add: randint_def overshoot_draws_def)
  have b: "calculate_duration \<bar>99 - 99\<bar> (99 < (99::int)) 1 = Inr 0"
    by (simp add: calculate_duration_def)
  have acts: "samples_of (generate_wave_motion 99 99 0 1 overshoot_draws 0) =
     map (wave_sample 99 99 0 0 6 overshoot_draws 1) [0 ..< 7]"
    using b by (simp add: samples_of_def generate_wave_motion_def Let_def n)
  have p1: "py_int (99 + 5 * (sqrt 3 / 2)) = 103"
    using sqrt3_bounds by (intro py_int_between) simp_all
  then have u: "py_int (real_of_int 99 + real_of_int (99 - 99) * (real 1 / real 6)
        + real_of_int (randint 5 10 (overshoot_draws (1 + 1))) * sin (real 1 / real 6 * pi * 2))
       = 103"
    unfolding sin_sixth_turn a1 by simp
  have "pos (wave_sample 99 99 0 0 6 overshoot_draws 1 1) =
     clamp_pos (py_int (real_of_int 99 + real_of_int (99 - 99) * (real 1 / real 6)
        + real_of_int (randint 5 10 (overshoot_draws (1 + 1))) * sin (real 1 / real 6 * pi * 2)))"
    by (rule wave_sample_inner) simp_all
  then have s1: "pos (wave_sample 99 99 0 0 6 overshoot_draws 1 1) = 100"
    unfolding u by (simp add: clamp_pos_def)
  have "map (wave_sample 99 99 0 0 6 overshoot_draws 1) [0 ..< 7] ! 1
          = wave_sample 99 99 0 0 6 overshoot_draws 1 (0 + 1)"
    by (rule nth_map_upt) simp
  then have n1: "map (wave_sample 99 99 0 0 6 overshoot_draws 1) [0 ..< 7] ! 1
          = wave_sample 99 99 0 0 6 overshoot_draws 1 1"
    by (simp only: add_0)
  show ?thesis
    unfolding acts n1 using s1 u by simp
qed

section \<open>Scheduler: the loop invariant\<close>

lemma random_unit_range: "0 \<le> random_unit r \<and> random_unit r < 1"
proof -
  have "r mod 2 ^ 53 < (2::nat) ^ 53" by simp
  then have "real (r mod 2 ^ 53) < real ((2::nat) ^ 53)" by (simp only: of_nat_less_iff)
  then show ?thesis by (simp add: random_unit_def)
qed

lemma boosted_speed_range:
  "11 / 10 \<le> 1 + uniform (10 / 100) (30 / 100) r \<and> 1 + uniform (10 / 100) (30 / 100) r < 13 / 10"
  using random_unit_range [of r] by (simp add: uniform_def)

lemma sorted_hd_least:
  assumes "sorted (map at_ms acts)" "a \<in> set acts"
  shows "at_ms (hd acts) \<le> at_ms a"
proof (cases acts)
  case Nil
  then show ?thesis using assms(2) by simp
next
  case (Cons z zs)
  then have "\<forall>x \<in> set zs. at_ms z \<le> at_ms x" using assms(1) by simp
  then show ?thesis using assms(2) Cons by auto
qed

lemma sorted_last_greatest:
  assumes "sorted (map at_ms acts)" "a \<in> set acts"
  shows "at_ms a \<le> at_ms (last acts)"
proof -
  have ne: "acts \<noteq> []" using assms(2) by auto
  obtain i where i: "i < length acts" "a = acts ! i"
    using assms(2) unfolding in_set_conv_nth by blast
  have "i \<le> length acts - 1" using i(1) by simp
  moreover have "length acts - 1 < length (map at_ms acts)" using ne by simp
  ultimately have "map at_ms acts ! i \<le> map at_ms acts ! (length acts - 1)"
    using assms(1) by (rule sorted_nth_mono [rotated])
  then have "at_ms (acts ! i) \<le> at_ms (acts ! (length acts - 1))"
    using i(1) ne by simp
  then show ?thesis using i(2) ne by (simp add: last_conv_nth)
qed

lemma segment_ok_bounds:
  assumes "segment_ok t0 ys t1"
  shows "t0 \<le> t1"
proof -
  have ys: "ys \<noteq> []" "sorted (map at_ms ys)" "at_ms (hd ys) = t0" "at_ms (last ys) = t1"
    using assms by (simp_all add: segment_ok_def)
  have "last ys \<in> set ys" using ys(1) by (rule last_in_set)
  then have "at_ms (hd ys) \<le> at_ms (last ys)" by (rule sorted_hd_least [OF ys(2)])
  then show ?thesis using ys(3,4) by simp
qed

lemma append_segment:
  assumes "xs \<noteq> []" "sorted (map at_ms xs)" "at_ms (last xs) \<le> t0" "segment_ok t0 ys t1"
  shows "sorted (map at_ms (xs @ ys)) \<and> hd (xs @ ys) = hd xs \<and> at_ms (last (xs @ ys)) = t1
         \<and> xs @ ys \<noteq> []"
proof -
  have ys: "ys \<noteq> []" "sorted (map at_ms ys)" "at_ms (hd ys) = t0" "at_ms (last ys) = t1"
    using assms(4) by (simp_all add: segment_ok_def)
  have "at_ms x \<le> at_ms y" if "x \<in> set xs" "y \<in> set ys" for x y
    using sorted_last_greatest [OF assms(2) that(1)] sorted_hd_least [OF ys(2) that(2)]
      assms(3) ys(3)
    by linarith
  then have "sorted (map at_ms (xs @ ys))"
    using assms(2) ys(2) by (simp add: sorted_append)
  then show ?thesis using assms(1) ys by simp
qed

lemma update_speed_keeps:
  "actions (update_speed rnd s) = actions s \<and> current_time (update_speed rnd s) = current_time s
   \<and> current_pos (update_speed rnd s) = current_pos s
   \<and> full_stroke_index (update_speed rnd s) = full_stroke_index s"
  by (simp add: update_speed_def)

lemma update_speed_positive:
  "0 < speed_multiplier s \<Longrightarrow> 0 < speed_multiplier (update_speed rnd s)"
  using boosted_speed_range [of "rnd (rng s)"] by (simp add: update_speed_def)

lemma update_speed_inv: "sched_inv s \<Longrightarrow> sched_inv (update_speed rnd s)"
  using update_speed_positive [of s rnd] by (simp add: sched_inv_def update_speed_keeps)

lemma maybe_pause_keeps:
  "speed_multiplier (maybe_pause rnd s) = speed_multiplier s
   \<and> current_pos (maybe_pause rnd s) = current_pos s
   \<and> current_time s \<le> current_time (maybe_pause rnd s)"
  by (simp add: maybe_pause_def Let_def)

lemma maybe_pause_inv:
  assumes "sched_inv s"
  shows "sched_inv (maybe_pause rnd s)"
proof -
  have a: "actions s \<noteq> []" "sorted (map at_ms (actions s))"
    "at_ms (last (actions s)) \<le> current_time s"
    using assms by (simp_all add: sched_inv_def)
  have "sorted (map at_ms (actions s @ [\<lparr>at_ms = t, pos = p\<rparr>]))
        \<and> hd (actions s @ [\<lparr>at_ms = t, pos = p\<rparr>]) = hd (actions s)"
    if "current_time s < t" for t p
  proof -
    have "segment_ok t [\<lparr>at_ms = t, pos = p\<rparr>] t" by (simp add: segment_ok_def)
    moreover have "at_ms (last (actions s)) \<le> t" using a(3) that by linarith
    ultimately show ?thesis using append_segment [OF a(1,2)] by blast
  qed
  then show ?thesis
    using assms by (simp add: sched_inv_def maybe_pause_def Let_def)
qed

lemma generate_motion_segment:
  assumes "0 < m"
  shows "returns_segment st (generate_motion mt sp ep st m rnd k)"
  using wave_segment_ok [OF assms] gradual_segment_ok [OF assms] plateau_segment_ok [OF assms]
  by (simp add: generate_motion_def)

lemma extend_inv:
  assumes "sched_inv s" "segment_ok (current_time s) ys t"
  shows "sched_inv (s\<lparr>actions := actions s @ ys, current_time := t, current_pos := p, rng := k\<rparr>)"
    and "sched_inv (s\<lparr>actions := actions s @ ys, current_time := t, current_pos := p,
           full_stroke_index := j, rng := k\<rparr>)"
proof -
  have a: "actions s \<noteq> []" "sorted (map at_ms (actions s))"
    "at_ms (last (actions s)) \<le> current_time s"
    using assms(1) by (simp_all add: sched_inv_def)
  show "sched_inv (s\<lparr>actions := actions s @ ys, current_time := t, current_pos := p, rng := k\<rparr>)"
    and "sched_inv (s\<lparr>actions := actions s @ ys, current_time := t, current_pos := p,
           full_stroke_index := j, rng := k\<rparr>)"
    using append_segment [OF a assms(2)] assms(1) by (simp_all add: sched_inv_def)
qed

text \<open>
  From a state that satisfies the invariant, a pass of the loop body raises no error,
  keeps the invariant and does not move the time backwards; it leaves through
  \<^verbatim>\<open>break\<close> only beyond the overshoot margin.
\<close>

lemma loop_iteration_inv:
  assumes "sched_inv s"
  shows "\<exists>stop s'. loop_iteration rnd T s = Inr (stop, s') \<and> sched_inv s'
           \<and> current_time s \<le> current_time s'
           \<and> (stop \<longrightarrow> DURATION_MS + 60000 < current_time s')"
proof -
  define u where "u = update_speed rnd s"
  have u: "sched_inv u"
    using update_speed_inv [OF assms] by (simp add: u_def)
  have cs: "current_time s = current_time u"
    using update_speed_keeps by (simp add: u_def)
  have "\<exists>stop s'. loop_iteration rnd T s = Inr (stop, s') \<and> sched_inv s'
           \<and> current_time u \<le> current_time s'
           \<and> (stop \<longrightarrow> DURATION_MS + 60000 < current_time s')"
  proof (cases "full_stroke_index u < length T \<and> current_time u \<ge> T ! full_stroke_index u")
    case True
    obtain ys t p k where g: "generate_full_stroke (current_pos u) (current_time u)
        (speed_multiplier u) rnd (rng u) = (ys, t, p, k)"
      by (cases "generate_full_stroke (current_pos u) (current_time u)
        (speed_multiplier u) rnd (rng u)") auto
    have seg: "segment_ok (current_time u) ys t"
      using full_stroke_segment_ok [of "current_time u" "current_pos u" "speed_multiplier u" rnd "rng u"]
      by (simp add: g stroke_samples_def stroke_end_time_def)
    have "current_time u \<le> t" using seg by (rule segment_ok_bounds)
    then show ?thesis
      using True extend_inv(2) [OF u seg]
      by (auto simp add: loop_iteration_def Let_def u_def [symmetric] g)
  next
    case False
    define v where "v = maybe_pause rnd u"
    have v1: "sched_inv v" unfolding v_def by (rule maybe_pause_inv [OF u])
    have v2: "current_time u \<le> current_time v"
      using maybe_pause_keeps [of rnd u] by (simp add: v_def)
    have v3: "0 < speed_multiplier v" using v1 by (simp add: sched_inv_def)
    note v = v1 v2 v3
    have "returns_segment (current_time v)
            (generate_motion (choice [Wave, Gradual, Plateau, Gradual, Wave] (rnd (rng v)))
               (current_pos v) (choose_target rnd (rng v + 1) (current_pos v)) (current_time v)
               (speed_multiplier v) rnd (rng v + 3))"
      using v(3) by (rule generate_motion_segment)
    then obtain ys t k where g:
      "generate_motion (choice [Wave, Gradual, Plateau, Gradual, Wave] (rnd (rng v)))
               (current_pos v) (choose_target rnd (rng v + 1) (current_pos v)) (current_time v)
               (speed_multiplier v) rnd (rng v + 3) = Inr (ys, t, k)"
      "segment_ok (current_time v) ys t"
      by (auto simp add: returns_segment_def split: sum.splits)
    have "current_time v \<le> t" using g(2) by (rule segment_ok_bounds)
    then have "current_time u \<le> t" using v(2) by linarith
    then show ?thesis
      using False extend_inv(1) [OF v(1) g(2)] g(1)
      by (auto simp add: loop_iteration_def Let_def u_def [symmetric] v_def [symmetric])
  qed
  then show ?thesis unfolding cs .
qed

text \<open>
  Whenever the loop returns, it returns a state, not an error, and the nominal end
  condition \<^verbatim>\<open>current_time >= DURATION_MS\<close> holds.
\<close>

lemma generate_loop_inv:
  assumes "generate_loop rnd T s = Some r" "sched_inv s"
  shows "\<exists>s'. r = Inr s' \<and> sched_inv s' \<and> DURATION_MS \<le> current_time s'"
proof -
  have "sched_inv s \<longrightarrow> (\<exists>s'. r = Inr s' \<and> sched_inv s' \<and> DURATION_MS \<le> current_time s')"
  proof (rule generate_loop.raw_induct [where P = "\<lambda>rnd T s r. sched_inv s \<longrightarrow>
            (\<exists>s'. r = Inr s' \<and> sched_inv s' \<and> DURATION_MS \<le> current_time s')",
          OF _ assms(1)], goal_cases)
    case (1 lp rnd T s r)
    show ?case
    proof
      assume inv: "sched_inv s"
      show "\<exists>s'. r = Inr s' \<and> sched_inv s' \<and> DURATION_MS \<le> current_time s'"
      proof (cases "current_time s < DURATION_MS")
        case False
        then show ?thesis using 1(2) inv by auto
      next
        case True
        obtain stop s' where it: "loop_iteration rnd T s = Inr (stop, s')" "sched_inv s'"
          "stop \<longrightarrow> DURATION_MS + 60000 < current_time s'"
          using loop_iteration_inv [OF inv] by blast
        show ?thesis
        proof (cases stop)
          case True
          then show ?thesis using 1(2) it \<open>current_time s < DURATION_MS\<close> by auto
        next
          case False
          then have "lp rnd T s' = Some r"
            using 1(2) it(1) \<open>current_time s < DURATION_MS\<close> by simp
          then show ?thesis using 1(1) it(2) by blast
        qed
      qed
    qed
  qed
  then show ?thesis using assms(2) by blast
qed

lemma initial_state_inv: "sched_inv initial_state"
  by (simp add: sched_inv_def initial_state_def)

lemma accumulated_actions_sorted:
  assumes "accumulated_actions rnd = Some r"
  shows "\<exists>acts. r = Inr acts \<and> acts \<noteq> [] \<and> at_ms (hd acts) = 0 \<and> sorted (map at_ms acts)
           \<and> DURATION_MS \<le> at_ms (last acts)"
proof -
  obtain q where q: "generate_loop rnd (draw_full_stroke_times rnd) initial_state = Some q"
    using assms by (auto simp add: accumulated_actions_def split: option.splits)
  obtain s where s: "q = Inr s" "sched_inv s"
    using generate_loop_inv [OF q initial_state_inv] by blast
  have r: "r = close_timeline (actions s)"
    using assms by (simp add: accumulated_actions_def q s(1))
  have a: "actions s \<noteq> []" "sorted (map at_ms (actions s))" "at_ms (hd (actions s)) = 0"
    using s(2) by (simp_all add: sched_inv_def)
  show ?thesis
  proof (cases "at_ms (last (actions s)) < DURATION_MS")
    case True
    have "segment_ok DURATION_MS [\<lparr>at_ms = DURATION_MS, pos = 50\<rparr>] DURATION_MS"
      by (simp add: segment_ok_def)
    then show ?thesis
      using append_segment [OF a(1,2), of DURATION_MS "[\<lparr>at_ms = DURATION_MS, pos = 50\<rparr>]" DURATION_MS]
        True a
      by (simp add: r close_timeline_def)
  next
    case False
    then show ?thesis using a by (simp add: r close_timeline_def)
  qed
qed

text \<open>
  C9. Whenever the scheduler reaches the finalizer, for every random draw, the
  accumulated action list, closing sample included, is a list (no error was raised), it is
  already non-decreasing by timestamp, and the stable sort by timestamp returns it
  unchanged.
\<close>

theorem finalizer_sort_is_identity:
  assumes "accumulated_actions rnd = Some r"
  shows "\<exists>acts. r = Inr acts \<and> sorted (map at_ms acts) \<and> sort_key at_ms acts = acts"
  using accumulated_actions_sorted [OF assms] by (auto simp add: sort_key_id_if_sorted)

text \<open>
  C3. Every sequence returned by \<^verbatim>\<open>generate_edging_script\<close>, for every random draw, is not
  empty, has timestamps strictly increasing from one action to the next, and starts with
  an action at time 0.
\<close>

theorem script_strictly_increasing_from_zero:
  assumes "generate_edging_script rnd = Some r"
  shows "\<exists>acts. r = Inr acts \<and> acts \<noteq> [] \<and> at_ms (hd acts) = 0
           \<and> sorted_wrt (<) (map at_ms acts)"
proof -
  obtain q where q: "accumulated_actions rnd = Some q"
    using assms by (auto simp add: generate_edging_script_def split: option.splits)
  obtain xs where xs: "q = Inr xs" "xs \<noteq> []" "at_ms (hd xs) = 0" "sorted (map at_ms xs)"
    using accumulated_actions_sorted [OF q] by blast
  have r: "r = Inr (finalize xs)"
    using assms by (simp add: generate_edging_script_def q xs(1))
  have "\<forall>a \<in> set xs. 0 \<le> at_ms a" using sorted_hd_least [OF xs(4)] xs(3) by auto
  moreover have "\<exists>a \<in> set xs. at_ms a = 0" using xs(2,3) hd_in_set by blast
  ultimately have "finalize xs \<noteq> [] \<and> at_ms (hd (finalize xs)) = 0"
    by (rule finalize_hd_zero)
  then show ?thesis using r finalize_strict by blast
qed

section \<open>Runs on the example streams\<close>

lemma steady_draws_cases:
  "steady_draws i = 32637586499553984512 \<or> steady_draws i = 78844518676375273472"
  by (simp add: steady_draws_def)

lemma steady_random_unit: "random_unit (steady_draws i) = 1 / 2"
  using steady_draws_cases [of i] by (auto simp add: random_unit_def)

lemma steady_motion:
  "choice [Wave, Gradual, Plateau, Gradual, Wave] (steady_draws i) = Plateau"
  using steady_draws_cases [of i] by (auto simp add: choice_def)

lemma steady_target: "choose_target steady_draws k cp \<noteq> cp"
  using steady_draws_cases [of "k + 1"]
  by (auto simp add: choose_target_def steady_random_unit randint_def)

lemma steady_no_pause: "maybe_pause steady_draws s = s\<lparr>rng := rng s + 1\<rparr>"
  by (simp add: maybe_pause_def steady_random_unit Let_def)

lemma stuck_random_unit: "random_unit (stuck_draws i) = 1 / 2"
  by (simp add: random_unit_def stuck_draws_def)

lemma stuck_motion:
  "choice [Wave, Gradual, Plateau, Gradual, Wave] (stuck_draws i) = Plateau"
  by (simp add: choice_def stuck_draws_def)

lemma stuck_target: "choose_target stuck_draws k 50 = 50"
  by (simp add: choose_target_def stuck_random_unit randint_def) (simp add: stuck_draws_def)

lemma stuck_times: "draw_full_stroke_times stuck_draws = [249247, 249247, 249247, 249247, 249247]"
  by (simp add: draw_full_stroke_times_def stuck_draws_def randint_def DURATION_MS_def upt_rec)


lemma plateau_end_time:
  assumes "calculate_duration \<bar>ep - sp\<bar> (sp < ep) m = Inr b"
  shows "\<exists>ys. generate_plateau_motion sp ep st m rnd k = Inr (ys, st + 6 * (b div 6), k)"
  by (simp add: plateau_unfolded [OF assms] Let_def)

lemma duration_at_least:
  assumes "0 < m" "m \<le> 2" "1 \<le> d"
  shows "\<exists>b. calculate_duration d up m = Inr b \<and> 50 \<le> b"
proof -
  have d: "1 \<le> real_of_int d" using assms(3) by simp
  have "75 * m \<le> 150 * 1" using assms(2) by simp
  also have "\<dots> \<le> 150 * real_of_int d" using d by (intro mult_left_mono) simp_all
  finally have x: "75 \<le> real_of_int d * 150 / m"
    using assms(1) by (simp add: field_simps)
  then have y: "50 \<le> real_of_int d * 150 / m / (3 / 2)" by simp
  have "(50::int) \<le> \<lfloor>real_of_int d * 150 / m\<rfloor>" using x by (simp add: le_floor_iff)
  moreover have "(50::int) \<le> \<lfloor>real_of_int d * 150 / m / (3 / 2)\<rfloor>"
    using y by (simp only: le_floor_iff)
  ultimately show ?thesis
    using assms by (simp add: calculate_duration_pos)
qed

lemma plateau_advances:
  assumes "0 < m" "m \<le> 2" "ep \<noteq> sp"
  shows "\<exists>ys t. generate_plateau_motion sp ep st m rnd k = Inr (ys, t, k) \<and> st < t"
proof -
  have "1 \<le> \<bar>ep - sp\<bar>" using assms(3) by linarith
  then obtain b where b: "calculate_duration \<bar>ep - sp\<bar> (sp < ep) m = Inr b" "50 \<le> b"
    using duration_at_least [OF assms(1,2)] by blast
  have "1 \<le> b div 6" using b(2) by linarith
  then have "st < st + 6 * (b div 6)" by linarith
  then show ?thesis using plateau_end_time [OF b(1), of st rnd k] by blast
qed

lemma full_stroke_advances:
  assumes "generate_full_stroke sp st m rnd k = (ys, t, p, k')"
  shows "st < t"
  using full_stroke_elapsed_bounds [of sp st m rnd k] assms by simp

lemma update_speed_bounded:
  assumes "speed_multiplier s \<le> 2"
  shows "speed_multiplier (update_speed rnd s) \<le> 2"
  using boosted_speed_range [of "rnd (rng s)"] assms by (simp add: update_speed_def)

lemma steady_iteration_progress:
  assumes "0 < speed_multiplier s" "speed_multiplier s \<le> 2"
    and "loop_iteration steady_draws T s = Inr (stop, s')"
  shows "current_time s < current_time s' \<and> speed_multiplier s' \<le> 2"
proof -
  define u where "u = update_speed steady_draws s"
  have u: "0 < speed_multiplier u" "speed_multiplier u \<le> 2"
    using update_speed_positive [OF assms(1)] update_speed_bounded [OF assms(2)]
    by (simp_all add: u_def)
  have cs: "current_time s = current_time u"
    using update_speed_keeps by (simp add: u_def)
  have "current_time u < current_time s' \<and> speed_multiplier s' \<le> 2"
  proof (cases "full_stroke_index u < length T \<and> current_time u \<ge> T ! full_stroke_index u")
    case True
    obtain ys t p k where g: "generate_full_stroke (current_pos u) (current_time u)
        (speed_multiplier u) steady_draws (rng u) = (ys, t, p, k)"
      by (cases "generate_full_stroke (current_pos u) (current_time u)
        (speed_multiplier u) steady_draws (rng u)") auto
    have "current_time u < t" using g by (rule full_stroke_advances)
    then show ?thesis
      using True assms(3) u(2) g
      by (auto simp add: loop_iteration_def Let_def u_def [symmetric])
  next
    case False
    obtain ys t where g: "generate_plateau_motion (current_pos u)
          (choose_target steady_draws (rng u + 1 + 1) (current_pos u)) (current_time u)
          (speed_multiplier u) steady_draws (rng u + 1 + 3) = Inr (ys, t, rng u + 1 + 3)"
        "current_time u < t"
      using plateau_advances [OF u steady_target] by blast
    show ?thesis
      using False assms(3) u(2) g
      by (auto simp add: loop_iteration_def Let_def u_def [symmetric] steady_no_pause
          steady_motion generate_motion_def)
  qed
  then show ?thesis unfolding cs .
qed

text \<open>
  On \<open>steady_draws\<close> every pass moves the time forward, because the chosen target always
  differs from the current position; so the loop returns.
\<close>

lemma steady_terminates:
  assumes "sched_inv s" "speed_multiplier s \<le> 2"
  shows "\<exists>r. generate_loop steady_draws T s = Some r"
  using assms
proof (induction "nat (DURATION_MS - current_time s)" arbitrary: s rule: less_induct)
  case less
  show ?case
  proof (cases "current_time s < DURATION_MS")
    case False
    then show ?thesis by (subst generate_loop.simps) simp
  next
    case True
    obtain stop s' where it: "loop_iteration steady_draws T s = Inr (stop, s')" "sched_inv s'"
      using loop_iteration_inv [OF less.prems(1)] by blast
    have pos: "0 < speed_multiplier s" using less.prems(1) by (simp add: sched_inv_def)
    have pr: "current_time s < current_time s'" "speed_multiplier s' \<le> 2"
      using steady_iteration_progress [OF pos less.prems(2) it(1)] by simp_all
    show ?thesis
    proof (cases stop)
      case True
      then show ?thesis using it(1) \<open>current_time s < DURATION_MS\<close>
        by (subst generate_loop.simps) simp
    next
      case False
      have "nat (DURATION_MS - current_time s') < nat (DURATION_MS - current_time s)"
        using pr(1) \<open>current_time s < DURATION_MS\<close> by linarith
      then obtain r where "generate_loop steady_draws T s' = Some r"
        using less.hyps [OF _ it(2) pr(2)] by blast
      then show ?thesis using it(1) False \<open>current_time s < DURATION_MS\<close>
        by (subst generate_loop.simps) simp
    qed
  qed
qed

lemma steady_accumulates: "\<exists>acts. accumulated_actions steady_draws = Some (Inr acts)"
proof -
  have "speed_multiplier initial_state \<le> 2" by (simp add: initial_state_def)
  then obtain q where
    q: "generate_loop steady_draws (draw_full_stroke_times steady_draws) initial_state = Some q"
    using steady_terminates [OF initial_state_inv] by blast
  then have "\<exists>r. accumulated_actions steady_draws = Some r"
    by (cases q) (simp_all add: accumulated_actions_def)
  then show ?thesis using accumulated_actions_sorted by blast
qed

theorem finalizer_sort_is_identity_witness:
  "\<exists>acts. accumulated_actions steady_draws = Some (Inr acts)
     \<and> sorted (map at_ms acts) \<and> sort_key at_ms acts = acts"
proof -
  obtain acts where a: "accumulated_actions steady_draws = Some (Inr acts)"
    using steady_accumulates by blast
  show ?thesis using finalizer_sort_is_identity [OF a] a by simp
qed

theorem script_strictly_increasing_from_zero_witness:
  "\<exists>acts. generate_edging_script steady_draws = Some (Inr acts) \<and> acts \<noteq> []
     \<and> at_ms (hd acts) = 0 \<and> sorted_wrt (<) (map at_ms acts)"
proof -
  obtain xs where "accumulated_actions steady_draws = Some (Inr xs)"
    using steady_accumulates by blast
  then have a: "generate_edging_script steady_draws = Some (Inr (finalize xs))"
    by (simp add: generate_edging_script_def)
  show ?thesis using script_strictly_increasing_from_zero [OF a] a by simp
qed

text \<open>
  On \<open>stuck_draws\<close> a pass from a stalled state draws no pause and the target 50, emits
  a plateau run of duration 0 and ends in a stalled state again.
\<close>

lemma stalled_iteration:
  assumes "stalled s" "\<forall>t \<in> set T. 0 < t"
  shows "\<exists>s'. loop_iteration stuck_draws T s = Inr (False, s') \<and> stalled s'"
proof -
  have u: "update_speed stuck_draws s = s"
    using assms(1) by (simp add: update_speed_def stalled_def)
  have "0 < T ! full_stroke_index s" if "full_stroke_index s < length T"
    using assms(2) that by (simp only: all_set_conv_all_nth)
  then have ns: "\<not> (full_stroke_index s < length T \<and> current_time s \<ge> T ! full_stroke_index s)"
    using assms(1) by (auto simp add: stalled_def)
  have p: "maybe_pause stuck_draws s = s\<lparr>rng := rng s + 1\<rparr>"
    by (simp add: maybe_pause_def stuck_random_unit Let_def)
  have b: "calculate_duration \<bar>50 - 50\<bar> (50 < (50::int)) 1 = Inr 0"
    by (simp add: calculate_duration_def)
  obtain ys where g: "generate_plateau_motion 50 50 0 1 stuck_draws (rng s + 1 + 3)
       = Inr (ys, 0 + 6 * (0 div 6), rng s + 1 + 3)"
    using plateau_end_time [OF b] by blast
  show ?thesis
    using assms(1) ns g
    by (auto simp add: loop_iteration_def Let_def u p stuck_motion stuck_target
        generate_motion_def stalled_def DURATION_MS_def)
qed

lemma stalled_never_returns:
  assumes "generate_loop rnd T s = Some r"
  shows "\<not> (rnd = stuck_draws \<and> (\<forall>t \<in> set T. 0 < t) \<and> stalled s)"
proof (rule generate_loop.raw_induct [where P = "\<lambda>rnd T s r.
          \<not> (rnd = stuck_draws \<and> (\<forall>t \<in> set T. 0 < t) \<and> stalled s)", OF _ assms], goal_cases)
  case (1 lp rnd T s r)
  show ?case
  proof
    assume h: "rnd = stuck_draws \<and> (\<forall>t \<in> set T. 0 < t) \<and> stalled s"
    then obtain s' where it: "loop_iteration stuck_draws T s = Inr (False, s')" "stalled s'"
      using stalled_iteration by blast
    have "current_time s < DURATION_MS" using h by (simp add: stalled_def DURATION_MS_def)
    then have "lp stuck_draws T s' = Some r" using 1(2) h it(1) by simp
    then show False using 1(1) h it(2) by blast
  qed
qed

text \<open>
  C4. The claim says that the loop terminates for every sequence of random draws. On the
  stream \<open>stuck_draws\<close> the script never leaves the loop: the time stays at 0, below the
  target duration and below the safety valve's threshold.
\<close>

theorem stuck_draws_never_return: "generate_edging_script stuck_draws = None"
proof -
  have "stalled initial_state"
    by (simp add: stalled_def initial_state_def SPEED_VARIATION_INTERVAL_def)
  moreover have "\<forall>t \<in> set (draw_full_stroke_times stuck_draws). 0 < t"
    by (simp add: stuck_times)
  ultimately have "generate_loop stuck_draws (draw_full_stroke_times stuck_draws) initial_state = None"
    using stalled_never_returns [of stuck_draws "draw_full_stroke_times stuck_draws" initial_state]
    by (cases "generate_loop stuck_draws (draw_full_stroke_times stuck_draws) initial_state") auto
  then show ?thesis
    by (simp add: generate_edging_script_def accumulated_actions_def)
qed

end
